theory Spec2Isabelle
  imports Main "HOL-Library.Char_ord" "HOL-Library.List_Lexorder" "HOL-Library.Multiset"
begin

section \<open>Data model\<close>

text \<open>
  The metadata payload of \<^verbatim>\<open>record_transformation\<close> is a Python dict of JSON values
  (\<^verbatim>\<open>Optional[Dict[str, Any]]\<close>). A dict keeps its insertion order and its keys are
  unique; it is modelled as an association list.
\<close>

datatype json =
    JNull
  | JBool bool
  | JInt int
  | JStr string
  | JArr "json list"
  | JObj "(string \<times> json) list"

text \<open>
  One row of the table \<^verbatim>\<open>lineage_records\<close> (the columns of \<^verbatim>\<open>_init_schema\<close>).
  \<^verbatim>\<open>source_dataset_id\<close> and \<^verbatim>\<open>metadata\<close> are nullable; \<^verbatim>\<open>metadata\<close> holds the
  serialised text. Text columns compare bytewise, which is the order of
  \<^typ>\<open>string\<close> taken from the character order and the lexicographic order of lists.
\<close>

record row =
  c_id :: nat
  c_dataset_id :: string
  c_operation :: string
  c_source_dataset_id :: "string option"
  c_metadata :: "string option"
  c_timestamp :: string
  c_created_at :: string

text \<open>
  The state of the database file: the rows in storage (rowid) order, and the counter
  behind \<^verbatim>\<open>INTEGER PRIMARY KEY AUTOINCREMENT\<close>.
\<close>

record ledger =
  rows :: "row list"
  seq :: nat

text \<open>The dict that \<^verbatim>\<open>get_lineage\<close> builds for one fetched row.\<close>

record lineage_record =
  rec_id :: nat
  dataset_id :: string
  operation :: string
  source_dataset_id :: "string option"
  metadata :: "json option"
  timestamp :: string
  created_at :: string

text \<open>One entry of a node's \<^verbatim>\<open>operations\<close> list, and the node of the lineage graph.\<close>

record operation_entry =
  op_operation :: string
  op_timestamp :: string
  op_metadata :: "json option"

datatype node = Node (node_dataset_id: string) (operations: "operation_entry list") (sources: "node list")

section \<open>The ledger store\<close>

text \<open>\<^verbatim>\<open>_init_schema\<close> on a fresh file: an empty table.\<close>

definition init_schema :: ledger where
  "init_schema = \<lparr>rows = [], seq = 0\<rparr>"

text \<open>
  \<^verbatim>\<open>record_transformation\<close>. The serialiser \<^verbatim>\<open>json.dumps\<close> is a library function and
  is a parameter; so are the two clock readings (\<^verbatim>\<open>datetime.utcnow().isoformat()\<close> and the
  engine's \<^verbatim>\<open>CURRENT_TIMESTAMP\<close>). The guard \<^verbatim>\<open>if metadata\<close> is Python truthiness:
  \<^verbatim>\<open>None\<close> and the empty dict both take the \<^verbatim>\<open>else\<close> branch. The result is
  \<^verbatim>\<open>cursor.lastrowid\<close> and the new state.
\<close>

definition metadata_json :: "(json \<Rightarrow> string) \<Rightarrow> (string \<times> json) list option \<Rightarrow> string option" where
  "metadata_json dumps md =
     (case md of
        None \<Rightarrow> None
      | Some m \<Rightarrow> if m \<noteq> [] then Some (dumps (JObj m)) else None)"

definition record_transformation ::
  "(json \<Rightarrow> string) \<Rightarrow> string \<Rightarrow> string \<Rightarrow> ledger \<Rightarrow>
   string \<Rightarrow> string \<Rightarrow> string option \<Rightarrow> (string \<times> json) list option \<Rightarrow> nat \<times> ledger" where
  "record_transformation dumps utcnow current_timestamp db did opn src md =
     (let new_id = Suc (seq db);
          r = \<lparr>c_id = new_id, c_dataset_id = did, c_operation = opn,
               c_source_dataset_id = src, c_metadata = metadata_json dumps md,
               c_timestamp = utcnow, c_created_at = current_timestamp\<rparr>
      in (new_id, db\<lparr>rows := rows db @ [r], seq := new_id\<rparr>))"

text \<open>
  The \<^verbatim>\<open>SELECT ... WHERE dataset_id = ? ORDER BY timestamp ASC\<close> of \<^verbatim>\<open>get_lineage\<close>:
  the matching rows, sorted on the timestamp text. The statement names no second key;
  the sort is taken as the engine performs it, stable over the rows in storage order.
\<close>

definition select_lineage :: "ledger \<Rightarrow> string \<Rightarrow> row list" where
  "select_lineage db did = sort_key c_timestamp (filter (\<lambda>r. c_dataset_id r = did) (rows db))"

text \<open>
  The loop of \<^verbatim>\<open>get_lineage\<close> over the fetched rows. \<^verbatim>\<open>json.loads\<close> is a parameter; the
  guard \<^verbatim>\<open>if row["metadata"]\<close> is false for NULL and for the empty text.
\<close>

definition row_metadata :: "(string \<Rightarrow> json) \<Rightarrow> row \<Rightarrow> json option" where
  "row_metadata loads r =
     (case c_metadata r of
        None \<Rightarrow> None
      | Some s \<Rightarrow> if s \<noteq> [] then Some (loads s) else None)"

definition row_record :: "(string \<Rightarrow> json) \<Rightarrow> row \<Rightarrow> lineage_record" where
  "row_record loads r =
     \<lparr>rec_id = c_id r, dataset_id = c_dataset_id r, operation = c_operation r,
      source_dataset_id = c_source_dataset_id r, metadata = row_metadata loads r,
      timestamp = c_timestamp r, created_at = c_created_at r\<rparr>"

definition get_lineage :: "(string \<Rightarrow> json) \<Rightarrow> ledger \<Rightarrow> string \<Rightarrow> lineage_record list" where
  "get_lineage loads db did = map (row_record loads) (select_lineage db did)"

text \<open>\<^verbatim>\<open>list_all_datasets\<close>: \<^verbatim>\<open>SELECT DISTINCT dataset_id ... ORDER BY dataset_id\<close>.\<close>

definition list_all_datasets :: "ledger \<Rightarrow> string list" where
  "list_all_datasets db = sort (remdups (map c_dataset_id (rows db)))"

section \<open>The lineage graph builder\<close>

text \<open>
  The nested function \<^verbatim>\<open>build_graph(current_id, parent_graph)\<close> of
  \<^verbatim>\<open>get_full_lineage_graph\<close> mutates \<^verbatim>\<open>parent_graph\<close> and the set \<^verbatim>\<open>visited\<close> of the
  enclosing call; here both are passed in and returned. \<^verbatim>\<open>build_records\<close> is its
  \<^verbatim>\<open>for record in records\<close> loop. The first argument bounds the depth of nested calls of
  \<^verbatim>\<open>build_graph\<close>: every call, also one that returns at the guard, uses one unit, and
  \<^term>\<open>None\<close> means that the bound was too small. The second argument stands for
  \<^verbatim>\<open>self.get_lineage\<close>.
\<close>

definition add_operation :: "node \<Rightarrow> lineage_record \<Rightarrow> node" where
  "add_operation g r =
     Node (node_dataset_id g)
       (operations g @ [\<lparr>op_operation = operation r, op_timestamp = timestamp r,
                          op_metadata = metadata r\<rparr>])
       (sources g)"

definition add_source :: "node \<Rightarrow> node \<Rightarrow> node" where
  "add_source g s = Node (node_dataset_id g) (operations g) (sources g @ [s])"

fun build_graph ::
    "nat \<Rightarrow> (string \<Rightarrow> lineage_record list) \<Rightarrow> string \<Rightarrow> node \<Rightarrow> string set \<Rightarrow> (node \<times> string set) option"
  and build_records ::
    "nat \<Rightarrow> (string \<Rightarrow> lineage_record list) \<Rightarrow> lineage_record list \<Rightarrow> node \<Rightarrow> string set \<Rightarrow> (node \<times> string set) option"
where
  "build_graph 0 lookup current_id parent_graph visited = None"
| "build_graph (Suc n) lookup current_id parent_graph visited =
     (if current_id \<in> visited then Some (parent_graph, visited)
      else build_records n lookup (lookup current_id) parent_graph (insert current_id visited))"
| "build_records n lookup [] parent_graph visited = Some (parent_graph, visited)"
| "build_records n lookup (r # rs) parent_graph visited =
     (case source_dataset_id r of
        None \<Rightarrow> build_records n lookup rs (add_operation parent_graph r) visited
      | Some s \<Rightarrow>
          if s \<noteq> [] then
            (case build_graph n lookup s (Node s [] []) visited of
               None \<Rightarrow> None
             | Some (source_graph, visited') \<Rightarrow>
                 build_records n lookup rs
                   (add_source (add_operation parent_graph r) source_graph) visited')
          else build_records n lookup rs (add_operation parent_graph r) visited)"

text \<open>
  \<^verbatim>\<open>get_full_lineage_graph\<close>: the traversal from the requested id with an empty
  \<^verbatim>\<open>visited\<close> set. The depth allowed is two more than the number of rows, which is
  shown below to be always enough.
\<close>

definition get_full_lineage_graph :: "(string \<Rightarrow> json) \<Rightarrow> ledger \<Rightarrow> string \<Rightarrow> node option" where
  "get_full_lineage_graph loads db did =
     map_option fst
       (build_graph (length (rows db) + 2) (get_lineage loads db) did (Node did [] []) {})"

section \<open>A reference codec\<close>

text \<open>
  The functions above take \<^verbatim>\<open>json.dumps\<close> and \<^verbatim>\<open>json.loads\<close> as parameters. To run them
  on concrete ledgers the parameters are instantiated with the codec below: a printer with
  the separators of \<^verbatim>\<open>json.dumps\<close> and a recursive-descent reader, for documents of
  integers, booleans, null, strings (with the escapes of the quote and the backslash),
  arrays and objects. The reader's first argument bounds its recursion. Text that is not
  such a document reads as \<^term>\<open>JNull\<close>.
\<close>

fun dec :: "nat \<Rightarrow> string" where
  "dec n = (if n < 10 then [char_of (48 + n)] else dec (n div 10) @ [char_of (48 + n mod 10)])"

declare dec.simps [simp del]

fun quote_body :: "string \<Rightarrow> string" where
  "quote_body [] = []"
| "quote_body (c # cs) =
     (if c = CHR 0x22 \<or> c = CHR 0x5C then CHR 0x5C # c # quote_body cs else c # quote_body cs)"

definition quote :: "string \<Rightarrow> string" where
  "quote s = CHR 0x22 # quote_body s @ [CHR 0x22]"

fun ref_dumps :: "json \<Rightarrow> string"
  and dumps_elems :: "json list \<Rightarrow> string"
  and dumps_members :: "(string \<times> json) list \<Rightarrow> string"
where
  "ref_dumps JNull = ''null''"
| "ref_dumps (JBool b) = (if b then ''true'' else ''false'')"
| "ref_dumps (JInt i) = (if i < 0 then CHR ''-'' # dec (nat (- i)) else dec (nat i))"
| "ref_dumps (JStr s) = quote s"
| "ref_dumps (JArr xs) = ''['' @ dumps_elems xs @ '']''"
| "ref_dumps (JObj ms) = ''{'' @ dumps_members ms @ ''}''"
| "dumps_elems [] = []"
| "dumps_elems (x # xs) = (if xs = [] then ref_dumps x else ref_dumps x @ '', '' @ dumps_elems xs)"
| "dumps_members [] = []"
| "dumps_members (m # ms) =
     (if ms = [] then quote (fst m) @ '': '' @ ref_dumps (snd m)
      else quote (fst m) @ '': '' @ ref_dumps (snd m) @ '', '' @ dumps_members ms)"

definition skip_ws :: "string \<Rightarrow> string" where
  "skip_ws s = dropWhile (\<lambda>c. c = CHR '' '') s"

definition is_digit :: "char \<Rightarrow> bool" where
  "is_digit c = (CHR ''0'' \<le> c \<and> c \<le> CHR ''9'')"

definition digits_value :: "string \<Rightarrow> nat" where
  "digits_value ds = foldl (\<lambda>a c. 10 * a + (of_char c - 48)) 0 ds"

fun parse_str :: "string \<Rightarrow> (string \<times> string) option" where
  "parse_str [] = None"
| "parse_str [c] = (if c = CHR 0x22 then Some ([], []) else None)"
| "parse_str (c # e # cs) =
     (if c = CHR 0x22 then Some ([], e # cs)
      else if c = CHR 0x5C then
        (if e = CHR 0x22 \<or> e = CHR 0x5C
         then map_option (\<lambda>p. (e # fst p, snd p)) (parse_str cs) else None)
      else map_option (\<lambda>p. (c # fst p, snd p)) (parse_str (e # cs)))"

definition parse_nat :: "string \<Rightarrow> (nat \<times> string) option" where
  "parse_nat s =
     (let ds = takeWhile is_digit s
      in if ds = [] then None else Some (digits_value ds, dropWhile is_digit s))"

fun parse_value :: "nat \<Rightarrow> string \<Rightarrow> (json \<times> string) option"
  and parse_elems :: "nat \<Rightarrow> string \<Rightarrow> (json list \<times> string) option"
  and parse_members :: "nat \<Rightarrow> string \<Rightarrow> ((string \<times> json) list \<times> string) option"
where
  "parse_value 0 s = None"
| "parse_value (Suc n) s =
     (case skip_ws s of
        [] \<Rightarrow> None
      | c # cs \<Rightarrow>
          if c = CHR ''n'' then (if take 3 cs = ''ull'' then Some (JNull, drop 3 cs) else None)
          else if c = CHR ''t'' then (if take 3 cs = ''rue'' then Some (JBool True, drop 3 cs) else None)
          else if c = CHR ''f'' then (if take 4 cs = ''alse'' then Some (JBool False, drop 4 cs) else None)
          else if c = CHR 0x22 then map_option (\<lambda>p. (JStr (fst p), snd p)) (parse_str cs)
          else if c = CHR ''-'' then map_option (\<lambda>p. (JInt (- int (fst p)), snd p)) (parse_nat cs)
          else if is_digit c then map_option (\<lambda>p. (JInt (int (fst p)), snd p)) (parse_nat (c # cs))
          else if c = CHR ''['' then
            (if take 1 (skip_ws cs) = '']'' then Some (JArr [], drop 1 (skip_ws cs))
             else map_option (\<lambda>p. (JArr (fst p), snd p)) (parse_elems n cs))
          else if c = CHR ''{'' then
            (if take 1 (skip_ws cs) = ''}'' then Some (JObj [], drop 1 (skip_ws cs))
             else map_option (\<lambda>p. (JObj (fst p), snd p)) (parse_members n cs))
          else None)"
| "parse_elems 0 s = None"
| "parse_elems (Suc n) s =
     (case parse_value n s of
        None \<Rightarrow> None
      | Some (v, r) \<Rightarrow>
          (case skip_ws r of
             [] \<Rightarrow> None
           | c # r1 \<Rightarrow>
               if c = CHR '','' then map_option (\<lambda>p. (v # fst p, snd p)) (parse_elems n r1)
               else if c = CHR '']'' then Some ([v], r1)
               else None))"
| "parse_members 0 s = None"
| "parse_members (Suc n) s =
     (case skip_ws s of
        [] \<Rightarrow> None
      | q # ks \<Rightarrow>
          if q \<noteq> CHR 0x22 then None
          else
            (case parse_str ks of
               None \<Rightarrow> None
             | Some (k, r) \<Rightarrow>
                 (case skip_ws r of
                    [] \<Rightarrow> None
                  | c # r1 \<Rightarrow>
                      if c \<noteq> CHR '':'' then None
                      else
                        (case parse_value n r1 of
                           None \<Rightarrow> None
                         | Some (v, r2) \<Rightarrow>
                             (case skip_ws r2 of
                                [] \<Rightarrow> None
                              | d # r3 \<Rightarrow>
                                  if d = CHR '','' then
                                    map_option (\<lambda>p. ((k, v) # fst p, snd p)) (parse_members n r3)
                                  else if d = CHR ''}'' then Some ([(k, v)], r3)
                                  else None)))))"

definition ref_loads :: "string \<Rightarrow> json" where
  "ref_loads s =
     (case parse_value (2 * length s + 2) s of
        None \<Rightarrow> JNull
      | Some (v, r) \<Rightarrow> if skip_ws r = [] then v else JNull)"

section \<open>Calls on the store\<close>

text \<open>
  The four operations the service offers, with the values an \<^verbatim>\<open>Append\<close> reads from its
  environment (the two clock readings) as its last two arguments. \<^verbatim>\<open>step\<close> is the effect of
  one call on the ledger: \<^verbatim>\<open>record_transformation\<close> inserts and commits, the three read
  methods execute a \<^verbatim>\<open>SELECT\<close> and close the connection without a commit.
\<close>

datatype call =
    Append string string "string option" "(string \<times> json) list option" string string
  | LookupByDataset string
  | BuildGraph string
  | ListDistinctDatasetIds

fun step :: "(json \<Rightarrow> string) \<Rightarrow> ledger \<Rightarrow> call \<Rightarrow> ledger" where
  "step dumps db (Append did opn src md utcnow current_timestamp) =
     snd (record_transformation dumps utcnow current_timestamp db did opn src md)"
| "step dumps db (LookupByDataset did) = db"
| "step dumps db (BuildGraph did) = db"
| "step dumps db ListDistinctDatasetIds = db"

definition run :: "(json \<Rightarrow> string) \<Rightarrow> ledger \<Rightarrow> call list \<Rightarrow> ledger" where
  "run dumps db cs = foldl (step dumps) db cs"

fun is_read :: "call \<Rightarrow> bool" where
  "is_read (Append did opn src md utcnow current_timestamp) = False"
| "is_read (LookupByDataset did) = True"
| "is_read (BuildGraph did) = True"
| "is_read ListDistinctDatasetIds = True"

fun append_targets :: "call list \<Rightarrow> string list" where
  "append_targets [] = []"
| "append_targets (Append did opn src md utcnow current_timestamp # cs) = did # append_targets cs"
| "append_targets (LookupByDataset did # cs) = append_targets cs"
| "append_targets (BuildGraph did # cs) = append_targets cs"
| "append_targets (ListDistinctDatasetIds # cs) = append_targets cs"

section \<open>Notions the properties are stated with\<close>

text \<open>The order of a lookup: earlier timestamp first, and the smaller id first among equals.\<close>

definition before :: "lineage_record \<Rightarrow> lineage_record \<Rightarrow> bool" where
  "before a b = (timestamp a < timestamp b \<or> (timestamp a = timestamp b \<and> rec_id a < rec_id b))"

text \<open>The rows of a dataset in storage order.\<close>

definition matching_rows :: "ledger \<Rightarrow> string \<Rightarrow> row list" where
  "matching_rows db did = filter (\<lambda>r. c_dataset_id r = did) (rows db)"

text \<open>
  All nodes of a graph, each occurrence counted; the identifiers of the nodes that carry
  operations, one entry per such node; and the nodes of one identifier that carry operations.
\<close>

fun nodes :: "node \<Rightarrow> node list" where
  "nodes (Node d ops srcs) = Node d ops srcs # concat (map nodes srcs)"

definition expanded_ids :: "node \<Rightarrow> string list" where
  "expanded_ids g = map node_dataset_id (filter (\<lambda>n. operations n \<noteq> []) (nodes g))"

definition carrying :: "string \<Rightarrow> node \<Rightarrow> node list" where
  "carrying d g = filter (\<lambda>n. node_dataset_id n = d \<and> operations n \<noteq> []) (nodes g)"

definition sources_within_operations :: "node \<Rightarrow> bool" where
  "sources_within_operations g = list_all (\<lambda>n. length (sources n) \<le> length (operations n)) (nodes g)"

definition empty_operations_empty_sources :: "node \<Rightarrow> bool" where
  "empty_operations_empty_sources g = list_all (\<lambda>n. operations n = [] \<longrightarrow> sources n = []) (nodes g)"

text \<open>
  The source links a traversal follows (a record's \<^verbatim>\<open>source_dataset_id\<close> when it is neither
  NULL nor empty), and the identifiers reachable along them from a root, the root included.
\<close>

definition source_links :: "(string \<Rightarrow> lineage_record list) \<Rightarrow> (string \<times> string) set" where
  "source_links lookup = {(d, s). s \<noteq> [] \<and> Some s \<in> source_dataset_id ` set (lookup d)}"

definition reachable_ids :: "(string \<Rightarrow> lineage_record list) \<Rightarrow> string \<Rightarrow> string set" where
  "reachable_ids lookup root = (source_links lookup)\<^sup>* `` {root}"

text \<open>The entry that \<^verbatim>\<open>build_graph\<close> appends to \<^verbatim>\<open>operations\<close> for a record.\<close>

definition entry :: "lineage_record \<Rightarrow> operation_entry" where
  "entry r = \<lparr>op_operation = operation r, op_timestamp = timestamp r, op_metadata = metadata r\<rparr>"

text \<open>
  The order of the rows behind a lookup, and the invariant of the id column that
  \<^verbatim>\<open>AUTOINCREMENT\<close> maintains: ids grow along the storage order and none exceeds the counter.
\<close>

definition row_before :: "row \<Rightarrow> row \<Rightarrow> bool" where
  "row_before a b = (c_timestamp a < c_timestamp b \<or> (c_timestamp a = c_timestamp b \<and> c_id a < c_id b))"

definition ids_increasing :: "ledger \<Rightarrow> bool" where
  "ids_increasing db =
     (sorted_wrt (<) (map c_id (rows db)) \<and> list_all (\<lambda>r. c_id r \<le> seq db) (rows db))"

text \<open>
  What a traversal that starts with \<^verbatim>\<open>visited = v\<close> and ends with \<^verbatim>\<open>visited = v'\<close> has built:
  the nodes that carry operations have pairwise different identifiers, all of them added
  to \<^verbatim>\<open>visited\<close> in between, and no node has more sources than operations.
\<close>

definition tree_ok :: "string set \<Rightarrow> string set \<Rightarrow> node list \<Rightarrow> bool" where
  "tree_ok v v' ts = (v \<subseteq> v' \<and> distinct (concat (map expanded_ids ts)) \<and>
      set (concat (map expanded_ids ts)) \<subseteq> v' - v \<and> list_all sources_within_operations ts)"

text \<open>
  First visit wins. The list \<^term>\<open>nodes g\<close> is in the order in which the traversal made its
  calls. Going along it with the set of identifiers met so far, a node whose identifier was
  met before carries no operations and no sources; \<^verbatim>\<open>visits_ok\<close> is what a traversal from
  \<^verbatim>\<open>visited = v\<close> to \<^verbatim>\<open>visited = v'\<close> has built in these terms.
\<close>

fun later_visits_empty :: "string set \<Rightarrow> node list \<Rightarrow> bool" where
  "later_visits_empty seen [] = True"
| "later_visits_empty seen (n # ns) =
     ((node_dataset_id n \<in> seen \<longrightarrow> operations n = [] \<and> sources n = []) \<and>
      later_visits_empty (insert (node_dataset_id n) seen) ns)"

definition first_visit_wins :: "node \<Rightarrow> bool" where
  "first_visit_wins g = later_visits_empty {} (nodes g)"

definition visits_ok :: "string set \<Rightarrow> string set \<Rightarrow> node list \<Rightarrow> bool" where
  "visits_ok v v' ts =
     (v' = v \<union> node_dataset_id ` set (concat (map nodes ts)) \<and>
      later_visits_empty v (concat (map nodes ts)))"

section \<open>Example ledgers\<close>

text \<open>A ledger with one self-referential record, and a diamond: R from X and Y, both from S.\<close>

definition self_ledger :: ledger where
  "self_ledger = run ref_dumps init_schema
     [Append ''A'' ''op1'' (Some ''A'') None ''2024-01-01T00:00:00'' ''2024-01-01 00:00:00'']"

definition diamond_ledger :: ledger where
  "diamond_ledger = run ref_dumps init_schema
     [Append ''S'' ''load'' None (Some [(''n'', JInt 100)]) ''2024-01-01T00:00:01'' ''2024-01-01 00:00:01'',
      Append ''X'' ''op'' (Some ''S'') None ''2024-01-01T00:00:02'' ''2024-01-01 00:00:02'',
      Append ''Y'' ''op'' (Some ''S'') (Some []) ''2024-01-01T00:00:03'' ''2024-01-01 00:00:03'',
      Append ''R'' ''join_x'' (Some ''X'') None ''2024-01-01T00:00:04'' ''2024-01-01 00:00:04'',
      Append ''R'' ''join_y'' (Some ''Y'') None ''2024-01-01T00:00:04'' ''2024-01-01 00:00:04'']"

section \<open>Basic facts\<close>

lemma run_Nil: "run dumps db [] = db"
  by (simp add: run_def)

lemma run_Cons: "run dumps db (c # cs) = run dumps (step dumps db c) cs"
  by (simp add: run_def)

lemma run_append: "run dumps db (cs @ ds) = run dumps (run dumps db cs) ds"
  by (simp add: run_def)

lemma step_read: "is_read c \<Longrightarrow> step dumps db c = db"
  by (cases c) simp_all

lemma run_reads: "list_all is_read cs \<Longrightarrow> run dumps db cs = db"
  by (induction cs arbitrary: db) (simp_all add: run_Nil run_Cons step_read)

lemma rows_record_transformation:
  "rows (snd (record_transformation dumps utcnow ct db did opn src md)) =
     rows db @ [\<lparr>c_id = Suc (seq db), c_dataset_id = did, c_operation = opn,
                  c_source_dataset_id = src, c_metadata = metadata_json dumps md,
                  c_timestamp = utcnow, c_created_at = ct\<rparr>]"
  by (simp add: record_transformation_def Let_def)

lemma seq_record_transformation:
  "seq (snd (record_transformation dumps utcnow ct db did opn src md)) = Suc (seq db)"
  by (simp add: record_transformation_def Let_def)

lemma fst_record_transformation:
  "fst (record_transformation dumps utcnow ct db did opn src md) = Suc (seq db)"
  by (simp add: record_transformation_def Let_def)

lemma get_lineage_matching:
  "get_lineage loads db did = map (row_record loads) (sort_key c_timestamp (matching_rows db did))"
  by (simp add: get_lineage_def select_lineage_def matching_rows_def)

lemma build_records_Nil_any: "build_records n lookup [] g v = Some (g, v)"
  by (cases n) simp_all

section \<open>Append performs no validation\<close>

text \<open>
  Claim C3, as amended. \<^verbatim>\<open>record_transformation\<close> has no check of its arguments: for every
  \<^verbatim>\<open>dataset_id\<close> and \<^verbatim>\<open>operation\<close>, the empty string included, the call returns the next id
  and the ledger afterwards is the ledger before with exactly one row added at the end,
  carrying the arguments as given.
\<close>

theorem record_transformation_no_validation:
  "fst (record_transformation dumps utcnow ct db did opn src md) = Suc (seq db) \<and>
   rows (snd (record_transformation dumps utcnow ct db did opn src md)) =
     rows db @ [\<lparr>c_id = Suc (seq db), c_dataset_id = did, c_operation = opn,
                  c_source_dataset_id = src, c_metadata = metadata_json dumps md,
                  c_timestamp = utcnow, c_created_at = ct\<rparr>]"
  by (simp add: rows_record_transformation fst_record_transformation)

text \<open>
  Claim C3 as stated fails: with both \<^verbatim>\<open>dataset_id\<close> and \<^verbatim>\<open>operation\<close> empty the call on the
  fresh ledger returns id 1 and the row is in the table.
\<close>

theorem empty_fields_counterexample:
  "record_transformation ref_dumps ''2024-01-01T00:00:00'' ''2024-01-01 00:00:00'' init_schema [] [] None None =
     (1, \<lparr>rows = [\<lparr>c_id = 1, c_dataset_id = [], c_operation = [], c_source_dataset_id = None,
                    c_metadata = None, c_timestamp = ''2024-01-01T00:00:00'',
                    c_created_at = ''2024-01-01 00:00:00''\<rparr>], seq = 1\<rparr>)"
  by (simp add: record_transformation_def init_schema_def metadata_json_def)

section \<open>A dataset without records\<close>

text \<open>
  Claim C8. When no row of the ledger has the requested \<^verbatim>\<open>dataset_id\<close>,
  \<^verbatim>\<open>get_full_lineage_graph\<close> returns a node with that id, no operations and no sources.
\<close>

theorem no_records_empty_node:
  assumes "matching_rows db did = []"
  shows "get_full_lineage_graph loads db did = Some (Node did [] [])"
  using assms by (simp add: get_full_lineage_graph_def get_lineage_matching)

theorem no_records_empty_node_witness:
  "matching_rows self_ledger ''B'' = [] \<and>
   get_full_lineage_graph ref_loads self_ledger ''B'' = Some (Node ''B'' [] [])"
proof -
  have h: "matching_rows self_ledger ''B'' = []"
    by (simp add: matching_rows_def self_ledger_def run_def rows_record_transformation init_schema_def)
  show ?thesis using h no_records_empty_node [OF h, of ref_loads] by simp
qed

section \<open>Reads leave the ledger unchanged\<close>

text \<open>
  Claim C9. A sequence of lookups, graph constructions and listings leaves the ledger as it
  was; placed anywhere in a sequence of calls it does not change the ledger that the
  calls after it see, hence not what a later lookup returns.
\<close>

theorem reads_leave_ledger_unchanged:
  assumes "list_all is_read cs"
  shows "run dumps db cs = db \<and> run dumps db (pre @ cs @ post) = run dumps db (pre @ post)"
  using assms by (simp add: run_append run_reads)

theorem reads_leave_ledger_unchanged_witness:
  "list_all is_read [LookupByDataset ''A'', BuildGraph ''A'', ListDistinctDatasetIds] \<and>
   run ref_dumps self_ledger [LookupByDataset ''A'', BuildGraph ''A'', ListDistinctDatasetIds] = self_ledger \<and>
   run ref_dumps self_ledger
     ([Append ''B'' ''op2'' (Some ''A'') None ''2024-01-02T00:00:00'' ''2024-01-02 00:00:00''] @
      [LookupByDataset ''A'', BuildGraph ''A'', ListDistinctDatasetIds] @
      [Append ''C'' ''op3'' (Some ''B'') None ''2024-01-03T00:00:00'' ''2024-01-03 00:00:00'']) =
   run ref_dumps self_ledger
     ([Append ''B'' ''op2'' (Some ''A'') None ''2024-01-02T00:00:00'' ''2024-01-02 00:00:00''] @
      [Append ''C'' ''op3'' (Some ''B'') None ''2024-01-03T00:00:00'' ''2024-01-03 00:00:00''])"
proof -
  have h: "list_all is_read [LookupByDataset ''A'', BuildGraph ''A'', ListDistinctDatasetIds]"
    by simp
  show ?thesis
    using h reads_leave_ledger_unchanged [OF h, of ref_dumps self_ledger
      "[Append ''B'' ''op2'' (Some ''A'') None ''2024-01-02T00:00:00'' ''2024-01-02 00:00:00'']"
      "[Append ''C'' ''op3'' (Some ''B'') None ''2024-01-03T00:00:00'' ''2024-01-03 00:00:00'']"]
    by blast
qed

section \<open>Lookup order\<close>

lemma ids_increasing_init: "ids_increasing init_schema"
  by (simp add: ids_increasing_def init_schema_def)

lemma ids_increasing_step: "ids_increasing db \<Longrightarrow> ids_increasing (step dumps db c)"
proof (cases c)
  case (Append did opn src md utcnow ct)
  assume a: "ids_increasing db"
  have "\<forall>r\<in>set (rows db). c_id r < Suc (seq db)"
    using a by (auto simp: ids_increasing_def list_all_iff)
  then show ?thesis using a Append
    by (auto simp: ids_increasing_def rows_record_transformation seq_record_transformation
        sorted_wrt_append list_all_iff intro: le_SucI)
qed simp_all

lemma ids_increasing_run: "ids_increasing db \<Longrightarrow> ids_increasing (run dumps db cs)"
  by (induction cs arbitrary: db) (simp_all add: run_Nil run_Cons ids_increasing_step)

lemma row_before_key: "row_before a b \<Longrightarrow> c_timestamp a \<le> c_timestamp b"
  by (auto simp: row_before_def)

lemma insort_row_before:
  "sorted_wrt row_before ys \<Longrightarrow> \<forall>y\<in>set ys. c_id x < c_id y \<Longrightarrow>
   sorted_wrt row_before (insort_key c_timestamp x ys)"
proof (induction ys)
  case Nil
  show ?case by simp
next
  case (Cons y ys)
  show ?case
  proof (cases "c_timestamp x \<le> c_timestamp y")
    case True
    have "\<forall>z\<in>set (y # ys). row_before x z"
    proof
      fix z assume z: "z \<in> set (y # ys)"
      have "c_timestamp y \<le> c_timestamp z"
        using z Cons.prems(1) by (auto dest: row_before_key)
      then have "c_timestamp x \<le> c_timestamp z" using True by simp
      moreover have "c_id x < c_id z" using z Cons.prems(2) by auto
      ultimately show "row_before x z" by (auto simp: row_before_def)
    qed
    then show ?thesis using True Cons.prems(1) by simp
  next
    case False
    then have lt: "c_timestamp y < c_timestamp x" by simp
    have "sorted_wrt row_before (insort_key c_timestamp x ys)"
      using Cons by simp
    moreover have "\<forall>z\<in>set (insort_key c_timestamp x ys). row_before y z"
      using lt Cons.prems(1) by (auto simp: set_insort_key row_before_def)
    ultimately show ?thesis using False by simp
  qed
qed

lemma sort_key_row_before:
  "sorted_wrt (<) (map c_id xs) \<Longrightarrow> sorted_wrt row_before (sort_key c_timestamp xs)"
proof (induction xs)
  case Nil
  show ?case by simp
next
  case (Cons x xs)
  have "\<forall>y\<in>set (sort_key c_timestamp xs). c_id x < c_id y"
    using Cons.prems by auto
  then show ?case using Cons by (simp add: insort_row_before)
qed

lemma before_row_record: "before (row_record loads a) (row_record loads b) = row_before a b"
  by (simp add: before_def row_before_def row_record_def)

lemma sorted_ids_filter:
  "sorted_wrt (<) (map c_id xs) \<Longrightarrow> sorted_wrt (<) (map c_id (filter P xs))"
  by (induction xs) auto

lemma get_lineage_before:
  assumes "ids_increasing db"
  shows "sorted_wrt before (get_lineage loads db did)"
proof -
  have "sorted_wrt (<) (map c_id (matching_rows db did))"
    using assms by (simp add: ids_increasing_def matching_rows_def sorted_ids_filter)
  then have "sorted_wrt row_before (sort_key c_timestamp (matching_rows db did))"
    by (rule sort_key_row_before)
  then show ?thesis
    by (simp add: get_lineage_matching sorted_wrt_map before_row_record)
qed

text \<open>
  Claim C1. On every ledger built from the empty table by calls of the service, a lookup
  returns exactly the rows whose \<^verbatim>\<open>dataset_id\<close> is the argument, each once, and any record
  of the result stands before any later one in the order "earlier timestamp, and on equal
  timestamps the smaller id". The second key is not in the statement's \<^verbatim>\<open>ORDER BY\<close>: it
  comes from the stable sort of the rows taken in storage order, in which ids grow.
\<close>

theorem get_lineage_ordered:
  "sorted_wrt before (get_lineage loads (run dumps init_schema cs) did) \<and>
   mset (get_lineage loads (run dumps init_schema cs) did) =
     mset (map (row_record loads) (matching_rows (run dumps init_schema cs) did))"
proof -
  have "ids_increasing (run dumps init_schema cs)"
    by (simp add: ids_increasing_run ids_increasing_init)
  then have "sorted_wrt before (get_lineage loads (run dumps init_schema cs) did)"
    by (rule get_lineage_before)
  then show ?thesis
    by (simp add: get_lineage_matching)
qed

section \<open>The list of dataset identifiers\<close>

lemma append_targets_Cons: "append_targets (c # cs) = append_targets [c] @ append_targets cs"
  by (cases c) simp_all

lemma targets_step:
  "map c_dataset_id (rows (step dumps db c)) = map c_dataset_id (rows db) @ append_targets [c]"
  by (cases c) (simp_all add: rows_record_transformation)

lemma targets_run:
  "map c_dataset_id (rows (run dumps db cs)) = map c_dataset_id (rows db) @ append_targets cs"
proof (induction cs arbitrary: db)
  case Nil
  show ?case by (simp add: run_Nil)
next
  case (Cons c cs)
  show ?case
    by (simp add: run_Cons Cons.IH targets_step append_targets_Cons [of c cs])
qed

text \<open>
  Claim C7. After any sequence of calls on the empty table, \<^verbatim>\<open>list_all_datasets\<close> is sorted
  in the order of the text column, has no duplicate, and its elements are exactly the
  \<^verbatim>\<open>dataset_id\<close> arguments of the \<^verbatim>\<open>Append\<close> calls made; an identifier that was only ever
  passed as \<^verbatim>\<open>source_dataset_id\<close> is therefore not in it.
\<close>

theorem list_all_datasets_sorted_distinct:
  "sorted (list_all_datasets (run dumps init_schema cs)) \<and>
   distinct (list_all_datasets (run dumps init_schema cs)) \<and>
   set (list_all_datasets (run dumps init_schema cs)) = set (append_targets cs)"
proof -
  have "map c_dataset_id (rows (run dumps init_schema cs)) = append_targets cs"
    by (simp add: targets_run init_schema_def)
  then show ?thesis by (simp add: list_all_datasets_def)
qed

section \<open>Metadata through the store\<close>

lemma matching_rows_record_transformation:
  "matching_rows (snd (record_transformation dumps utcnow ct db did opn src md)) did =
     matching_rows db did @ [\<lparr>c_id = Suc (seq db), c_dataset_id = did, c_operation = opn,
                  c_source_dataset_id = src, c_metadata = metadata_json dumps md,
                  c_timestamp = utcnow, c_created_at = ct\<rparr>]"
  by (simp add: matching_rows_def rows_record_transformation)

lemma appended_record_in_lineage:
  "row_record loads \<lparr>c_id = Suc (seq db), c_dataset_id = did, c_operation = opn,
                  c_source_dataset_id = src, c_metadata = metadata_json dumps md,
                  c_timestamp = utcnow, c_created_at = ct\<rparr>
   \<in> set (get_lineage loads (snd (record_transformation dumps utcnow ct db did opn src md)) did)"
  by (simp add: get_lineage_matching matching_rows_record_transformation)

text \<open>
  Claim C2, as amended. For a metadata dict that is not empty, whose serialised text is not
  empty and is read back by \<^verbatim>\<open>json.loads\<close> as the dict itself, the lookup on the same
  \<^verbatim>\<open>dataset_id\<close> after the append contains the record with the returned id, and its metadata
  is the dict that was passed.
\<close>

theorem metadata_round_trip_nonempty:
  assumes "m \<noteq> []" and "dumps (JObj m) \<noteq> []" and "loads (dumps (JObj m)) = JObj m"
  shows "\<exists>r\<in>set (get_lineage loads (snd (record_transformation dumps utcnow ct db did opn src (Some m))) did).
           rec_id r = fst (record_transformation dumps utcnow ct db did opn src (Some m)) \<and>
           operation r = opn \<and> source_dataset_id r = src \<and> timestamp r = utcnow \<and>
           metadata r = Some (JObj m)"
proof -
  let ?r = "row_record loads \<lparr>c_id = Suc (seq db), c_dataset_id = did, c_operation = opn,
                  c_source_dataset_id = src, c_metadata = metadata_json dumps (Some m),
                  c_timestamp = utcnow, c_created_at = ct\<rparr>"
  have "?r \<in> set (get_lineage loads (snd (record_transformation dumps utcnow ct db did opn src (Some m))) did)"
    by (rule appended_record_in_lineage)
  moreover have "metadata ?r = Some (JObj m)"
    using assms by (simp add: row_record_def row_metadata_def metadata_json_def)
  moreover have "rec_id ?r = fst (record_transformation dumps utcnow ct db did opn src (Some m))"
    by (simp add: row_record_def fst_record_transformation)
  moreover have "operation ?r = opn \<and> source_dataset_id ?r = src \<and> timestamp ?r = utcnow"
    by (simp add: row_record_def)
  ultimately show ?thesis by blast
qed

theorem metadata_round_trip_nonempty_witness:
  "[(''n'', JInt 100)] \<noteq> [] \<and> ref_dumps (JObj [(''n'', JInt 100)]) \<noteq> [] \<and>
   ref_loads (ref_dumps (JObj [(''n'', JInt 100)])) = JObj [(''n'', JInt 100)] \<and>
   (\<exists>r\<in>set (get_lineage ref_loads (snd (record_transformation ref_dumps ''2024-01-01T00:00:00'' ''2024-01-01 00:00:00''
                 init_schema ''raw'' ''load'' None (Some [(''n'', JInt 100)]))) ''raw'').
       rec_id r = fst (record_transformation ref_dumps ''2024-01-01T00:00:00'' ''2024-01-01 00:00:00''
                 init_schema ''raw'' ''load'' None (Some [(''n'', JInt 100)])) \<and>
       operation r = ''load'' \<and> source_dataset_id r = None \<and> timestamp r = ''2024-01-01T00:00:00'' \<and>
       metadata r = Some (JObj [(''n'', JInt 100)]))"
proof -
  have h1: "[(''n'', JInt 100)] \<noteq> ([] :: (string \<times> json) list)" by simp
  have h2: "ref_dumps (JObj [(''n'', JInt 100)]) \<noteq> []" by code_simp
  have h3: "ref_loads (ref_dumps (JObj [(''n'', JInt 100)])) = JObj [(''n'', JInt 100)]" by code_simp
  show ?thesis
    using h1 h2 h3 metadata_round_trip_nonempty [where dumps = ref_dumps and loads = ref_loads
        and m = "[(''n'', JInt 100)]" and utcnow = "''2024-01-01T00:00:00''"
        and ct = "''2024-01-01 00:00:00''" and db = init_schema and did = "''raw''"
        and opn = "''load''" and src = None, OF h1 h2 h3]
    by blast
qed

text \<open>
  Claim C2 as stated fails for the empty dict: \<^verbatim>\<open>if metadata\<close> is false for it, NULL is
  stored, and the lookup returns \<^verbatim>\<open>None\<close> as the record's metadata, not the empty dict.
\<close>

theorem empty_metadata_counterexample:
  "map metadata (get_lineage ref_loads
      (snd (record_transformation ref_dumps ''2024-01-01T00:00:00'' ''2024-01-01 00:00:00''
              init_schema ''raw'' ''load'' None (Some []))) ''raw'') = [None]"
  by (simp add: get_lineage_matching matching_rows_def rows_record_transformation
      init_schema_def metadata_json_def row_record_def row_metadata_def)

section \<open>A self-referential record\<close>

text \<open>
  Claim C5. When the ledger holds one row, for a dataset with a non-empty name that names
  itself as its source, the graph of that dataset has the row's operation as its only
  operation and one source node, of the same name, without operations and without sources.
\<close>

theorem self_reference_graph:
  assumes "rows db = [r]" and "c_dataset_id r = A" and "c_source_dataset_id r = Some A" and "A \<noteq> []"
  shows "get_full_lineage_graph loads db A =
     Some (Node A [\<lparr>op_operation = c_operation r, op_timestamp = c_timestamp r,
                     op_metadata = row_metadata loads r\<rparr>] [Node A [] []])"
proof -
  have "get_lineage loads db A = [row_record loads r]"
    using assms by (simp add: get_lineage_matching matching_rows_def)
  then show ?thesis
    using assms
    by (simp add: get_full_lineage_graph_def add_operation_def add_source_def row_record_def)
qed

theorem self_reference_graph_witness:
  "rows self_ledger =
     [\<lparr>c_id = 1, c_dataset_id = ''A'', c_operation = ''op1'', c_source_dataset_id = Some ''A'',
       c_metadata = None, c_timestamp = ''2024-01-01T00:00:00'',
       c_created_at = ''2024-01-01 00:00:00''\<rparr>] \<and>
   ''A'' \<noteq> [] \<and>
   get_full_lineage_graph ref_loads self_ledger ''A'' =
     Some (Node ''A'' [\<lparr>op_operation = ''op1'', op_timestamp = ''2024-01-01T00:00:00'',
                        op_metadata = None\<rparr>] [Node ''A'' [] []])"
proof -
  have h: "rows self_ledger =
     [\<lparr>c_id = 1, c_dataset_id = ''A'', c_operation = ''op1'', c_source_dataset_id = Some ''A'',
       c_metadata = None, c_timestamp = ''2024-01-01T00:00:00'',
       c_created_at = ''2024-01-01 00:00:00''\<rparr>]"
    by (simp add: self_ledger_def run_def rows_record_transformation init_schema_def metadata_json_def)
  show ?thesis
    using h self_reference_graph [OF h, of "''A''" ref_loads]
    by (simp add: row_metadata_def)
qed

section \<open>Depth of the traversal and termination\<close>

text \<open>A result found within some depth is the result within any larger depth.\<close>

lemma build_records_mono_step:
  assumes bg: "\<And>c g v r. build_graph n lk c g v = Some r \<Longrightarrow> build_graph (n + k) lk c g v = Some r"
  shows "build_records n lk recs g v = Some r \<Longrightarrow> build_records (n + k) lk recs g v = Some r"
proof (induction recs arbitrary: g v)
  case Nil
  then show ?case by (simp add: build_records_Nil_any)
next
  case (Cons x xs)
  show ?case
  proof (cases "source_dataset_id x")
    case None
    then show ?thesis using Cons by simp
  next
    case (Some s)
    show ?thesis
    proof (cases "s = []")
      case True
      then show ?thesis using Some Cons by simp
    next
      case False
      from Cons.prems Some False obtain sg v1 where
        a: "build_graph n lk s (Node s [] []) v = Some (sg, v1)" and
        b: "build_records n lk xs (add_source (add_operation g x) sg) v1 = Some r"
        by (auto split: option.splits)
      have "build_graph (n + k) lk s (Node s [] []) v = Some (sg, v1)" using a by (rule bg)
      moreover have "build_records (n + k) lk xs (add_source (add_operation g x) sg) v1 = Some r"
        using b by (rule Cons.IH)
      ultimately show ?thesis using Some False by simp
    qed
  qed
qed

lemma build_graph_mono:
  "build_graph n lk c g v = Some r \<Longrightarrow> build_graph (n + k) lk c g v = Some r"
proof (induction n arbitrary: c g v r)
  case 0
  then show ?case by simp
next
  case (Suc n)
  show ?case
  proof (cases "c \<in> v")
    case True
    then show ?thesis using Suc.prems by simp
  next
    case False
    then have a: "build_records n lk (lk c) g (insert c v) = Some r" using Suc.prems by simp
    have bg: "\<And>c g v r. build_graph n lk c g v = Some r \<Longrightarrow> build_graph (n + k) lk c g v = Some r"
      by (rule Suc.IH)
    have "build_records (n + k) lk (lk c) g (insert c v) = Some r"
      using bg a by (rule build_records_mono_step)
    then show ?thesis using False by simp
  qed
qed

lemma build_graph_fuel_le:
  "build_graph n lk c g v = Some r \<Longrightarrow> n \<le> m \<Longrightarrow> build_graph m lk c g v = Some r"
  using build_graph_mono [of n lk c g v r "m - n"] by simp

text \<open>Reachable identifiers along the source links.\<close>

lemma reachable_ids_root: "c \<in> reachable_ids lk c"
  by (simp add: reachable_ids_def)

lemma reachable_ids_link: "(c, s) \<in> source_links lk \<Longrightarrow> reachable_ids lk s \<subseteq> reachable_ids lk c"
  by (auto simp: reachable_ids_def intro: converse_rtrancl_into_rtrancl)

lemma source_links_record:
  "r \<in> set (lk c) \<Longrightarrow> source_dataset_id r = Some s \<Longrightarrow> s \<noteq> [] \<Longrightarrow> (c, s) \<in> source_links lk"
  by (force simp: source_links_def)

text \<open>
  A call returns when the depth allowed exceeds the number of reachable identifiers not yet
  visited: the loop of a call only makes calls for which that number is smaller, since the
  current identifier has just been added to \<^verbatim>\<open>visited\<close>, and \<^verbatim>\<open>visited\<close> only grows.
\<close>

lemma build_records_returns_step:
  assumes bg: "\<And>c g v. finite (reachable_ids lk c) \<Longrightarrow> card (reachable_ids lk c - v) < n \<Longrightarrow>
                 \<exists>g' v'. build_graph n lk c g v = Some (g', v') \<and> v \<subseteq> v'"
  shows "(\<And>r s. r \<in> set recs \<Longrightarrow> source_dataset_id r = Some s \<Longrightarrow> s \<noteq> [] \<Longrightarrow>
            finite (reachable_ids lk s) \<and> card (reachable_ids lk s - v) < n) \<Longrightarrow>
         \<exists>g' v'. build_records n lk recs g v = Some (g', v') \<and> v \<subseteq> v'"
proof (induction recs arbitrary: g v)
  case Nil
  show ?case by (simp add: build_records_Nil_any)
next
  case (Cons x xs)
  have rest: "\<And>g1 v1. v \<subseteq> v1 \<Longrightarrow> \<exists>g' v'. build_records n lk xs g1 v1 = Some (g', v') \<and> v1 \<subseteq> v'"
  proof -
    fix g1 v1 assume sub: "v \<subseteq> v1"
    show "\<exists>g' v'. build_records n lk xs g1 v1 = Some (g', v') \<and> v1 \<subseteq> v'"
    proof (rule Cons.IH)
      fix r s assume r: "r \<in> set xs" "source_dataset_id r = Some s" "s \<noteq> []"
      then have f: "finite (reachable_ids lk s)" and c: "card (reachable_ids lk s - v) < n"
        using Cons.prems [of r s] by auto
      have "card (reachable_ids lk s - v1) \<le> card (reachable_ids lk s - v)"
        using f sub by (intro card_mono) auto
      then show "finite (reachable_ids lk s) \<and> card (reachable_ids lk s - v1) < n"
        using f c by simp
    qed
  qed
  show ?case
  proof (cases "source_dataset_id x")
    case None
    then show ?thesis using rest [of v "add_operation g x"] by simp
  next
    case (Some s)
    show ?thesis
    proof (cases "s = []")
      case True
      then show ?thesis using Some rest [of v "add_operation g x"] by simp
    next
      case False
      have "finite (reachable_ids lk s) \<and> card (reachable_ids lk s - v) < n"
        using Cons.prems [of x s] Some False by simp
      then obtain sg v1 where a: "build_graph n lk s (Node s [] []) v = Some (sg, v1)" and s1: "v \<subseteq> v1"
        using bg [of s v "Node s [] []"] by blast
      obtain g' v' where b: "build_records n lk xs (add_source (add_operation g x) sg) v1 = Some (g', v')"
        and s2: "v1 \<subseteq> v'"
        using rest [OF s1, of "add_source (add_operation g x) sg"] by blast
      show ?thesis using Some False a b s1 s2 by auto
    qed
  qed
qed

lemma build_graph_returns:
  "finite (reachable_ids lk c) \<Longrightarrow> card (reachable_ids lk c - v) < n \<Longrightarrow>
   \<exists>g' v'. build_graph n lk c g v = Some (g', v') \<and> v \<subseteq> v'"
proof (induction n arbitrary: c g v)
  case 0
  then show ?case by simp
next
  case (Suc n)
  show ?case
  proof (cases "c \<in> v")
    case True
    then show ?thesis by simp
  next
    case False
    have "\<exists>g' v'. build_records n lk (lk c) g (insert c v) = Some (g', v') \<and> insert c v \<subseteq> v'"
    proof (rule build_records_returns_step)
      fix c' g' v' assume "finite (reachable_ids lk c')" "card (reachable_ids lk c' - v') < n"
      then show "\<exists>g'' v''. build_graph n lk c' g' v' = Some (g'', v'') \<and> v' \<subseteq> v''"
        by (rule Suc.IH)
    next
      fix r s assume r: "r \<in> set (lk c)" "source_dataset_id r = Some s" "s \<noteq> []"
      then have sub: "reachable_ids lk s \<subseteq> reachable_ids lk c"
        by (intro reachable_ids_link source_links_record)
      then have f: "finite (reachable_ids lk s)" using Suc.prems(1) by (rule finite_subset)
      have "reachable_ids lk s - insert c v \<subset> reachable_ids lk c - v"
        using sub False reachable_ids_root [of c lk] by auto
      then have "card (reachable_ids lk s - insert c v) < card (reachable_ids lk c - v)"
        using Suc.prems(1) by (intro psubset_card_mono) auto
      then show "finite (reachable_ids lk s) \<and> card (reachable_ids lk s - insert c v) < n"
        using f Suc.prems(2) by simp
    qed
    then show ?thesis using False by auto
  qed
qed

text \<open>On a ledger, every reachable identifier is the root or the source column of a row.\<close>

lemma source_links_ledger:
  "(d, s) \<in> source_links (get_lineage loads db) \<Longrightarrow> Some s \<in> c_source_dataset_id ` set (rows db)"
  by (auto simp: source_links_def get_lineage_matching matching_rows_def row_record_def)

lemma reachable_ids_ledger:
  "reachable_ids (get_lineage loads db) c \<subseteq> insert c (the ` (c_source_dataset_id ` set (rows db)))"
proof
  fix x assume "x \<in> reachable_ids (get_lineage loads db) c"
  then have "(c, x) \<in> (source_links (get_lineage loads db))\<^sup>*" by (simp add: reachable_ids_def)
  then show "x \<in> insert c (the ` (c_source_dataset_id ` set (rows db)))"
  proof (cases rule: rtranclE)
    case base
    then show ?thesis by simp
  next
    case (step y)
    then have "Some x \<in> c_source_dataset_id ` set (rows db)" by (auto dest: source_links_ledger)
    then have "the (Some x) \<in> the ` (c_source_dataset_id ` set (rows db))" by (rule imageI)
    then show ?thesis by simp
  qed
qed

lemma finite_reachable_ids_ledger: "finite (reachable_ids (get_lineage loads db) c)"
  by (rule finite_subset [OF reachable_ids_ledger]) simp

lemma card_reachable_ids_ledger: "card (reachable_ids (get_lineage loads db) c) \<le> Suc (length (rows db))"
proof -
  have "card (reachable_ids (get_lineage loads db) c) \<le>
        card (insert c (the ` (c_source_dataset_id ` set (rows db))))"
    by (rule card_mono [OF _ reachable_ids_ledger]) simp
  also have "\<dots> \<le> Suc (card (the ` (c_source_dataset_id ` set (rows db))))"
    by (simp add: card_insert_if)
  also have "\<dots> \<le> Suc (card (set (rows db)))"
    by (simp add: image_image card_image_le)
  also have "\<dots> \<le> Suc (length (rows db))"
    by (simp add: card_length)
  finally show ?thesis .
qed

text \<open>
  The depth that \<^verbatim>\<open>get_full_lineage_graph\<close> allows is enough, so a graph found within any
  depth is the graph it returns.
\<close>

lemma get_full_lineage_graph_eq:
  assumes "build_graph n (get_lineage loads db) did (Node did [] []) {} = Some (g, v)"
  shows "get_full_lineage_graph loads db did = Some g"
proof -
  let ?lk = "get_lineage loads db"
  have "card (reachable_ids ?lk did - {}) < length (rows db) + 2"
    using card_reachable_ids_ledger [of loads db did] by simp
  then obtain g' v' where full: "build_graph (length (rows db) + 2) ?lk did (Node did [] []) {} = Some (g', v')"
    using build_graph_returns [OF finite_reachable_ids_ledger, of loads db did "{}" "length (rows db) + 2" "Node did [] []"]
    by blast
  have a: "build_graph (max n (length (rows db) + 2)) ?lk did (Node did [] []) {} = Some (g, v)"
    using assms by (rule build_graph_fuel_le) simp
  have b: "build_graph (max n (length (rows db) + 2)) ?lk did (Node did [] []) {} = Some (g', v')"
    using full by (rule build_graph_fuel_le) simp
  from a b have "g' = g" by simp
  then show ?thesis using full by (simp add: get_full_lineage_graph_def)
qed

text \<open>
  Claim C6, as amended. For every ledger and every requested id the traversal returns a
  graph, cyclic source links included, and it does so within a depth of nested calls of
  \<^verbatim>\<open>build_graph\<close> that is one more than the number of distinct identifiers reachable from
  the root: the call that meets an identifier already visited is itself a nested call.
\<close>

theorem build_graph_terminates:
  "\<exists>g v. build_graph (Suc (card (reachable_ids (get_lineage loads db) did))) (get_lineage loads db) did
            (Node did [] []) {} = Some (g, v) \<and>
          get_full_lineage_graph loads db did = Some g"
proof -
  obtain g v where a: "build_graph (Suc (card (reachable_ids (get_lineage loads db) did)))
      (get_lineage loads db) did (Node did [] []) {} = Some (g, v)"
    using build_graph_returns [OF finite_reachable_ids_ledger, of loads db did "{}"
        "Suc (card (reachable_ids (get_lineage loads db) did))" "Node did [] []"]
    by auto
  then show ?thesis using get_full_lineage_graph_eq [OF a] by blast
qed

lemma self_ledger_rows:
  "rows self_ledger =
     [\<lparr>c_id = 1, c_dataset_id = ''A'', c_operation = ''op1'', c_source_dataset_id = Some ''A'',
       c_metadata = None, c_timestamp = ''2024-01-01T00:00:00'',
       c_created_at = ''2024-01-01 00:00:00''\<rparr>]"
  by (simp add: self_ledger_def run_def rows_record_transformation init_schema_def metadata_json_def)

text \<open>
  Claim C6 as stated fails by one. On the ledger with the single self-referential record
  one identifier is reachable from the root, a depth of one nested call is not enough, and
  a depth of two is: the call for the root and, inside it, the call that returns at the guard.
\<close>

theorem depth_bound_counterexample:
  "card (reachable_ids (get_lineage ref_loads self_ledger) ''A'') = 1 \<and>
   build_graph 1 (get_lineage ref_loads self_ledger) ''A'' (Node ''A'' [] []) {} = None \<and>
   build_graph 2 (get_lineage ref_loads self_ledger) ''A'' (Node ''A'' [] []) {} =
     Some (Node ''A'' [\<lparr>op_operation = ''op1'', op_timestamp = ''2024-01-01T00:00:00'',
                        op_metadata = None\<rparr>] [Node ''A'' [] []], {''A''})"
proof -
  have "reachable_ids (get_lineage ref_loads self_ledger) ''A'' \<subseteq> {''A''}"
    using reachable_ids_ledger [of ref_loads self_ledger "''A''"] by (simp add: self_ledger_rows)
  moreover have "''A'' \<in> reachable_ids (get_lineage ref_loads self_ledger) ''A''"
    by (rule reachable_ids_root)
  ultimately have "reachable_ids (get_lineage ref_loads self_ledger) ''A'' = {''A''}" by blast
  then have c: "card (reachable_ids (get_lineage ref_loads self_ledger) ''A'') = 1" by simp
  have l: "get_lineage ref_loads self_ledger ''A'' =
     [\<lparr>rec_id = 1, dataset_id = ''A'', operation = ''op1'', source_dataset_id = Some ''A'',
       metadata = None, timestamp = ''2024-01-01T00:00:00'', created_at = ''2024-01-01 00:00:00''\<rparr>]"
    by (simp add: get_lineage_matching matching_rows_def self_ledger_rows row_record_def row_metadata_def)
  have one: "build_graph 1 (get_lineage ref_loads self_ledger) ''A'' (Node ''A'' [] []) {} = None"
    using l by simp
  have two: "build_graph 2 (get_lineage ref_loads self_ledger) ''A'' (Node ''A'' [] []) {} =
     Some (Node ''A'' [\<lparr>op_operation = ''op1'', op_timestamp = ''2024-01-01T00:00:00'',
                        op_metadata = None\<rparr>] [Node ''A'' [] []], {''A''})"
    using l by (simp add: numeral_2_eq_2 add_operation_def add_source_def)
  show ?thesis using c one two by simp
qed

section \<open>A shared upstream source\<close>

lemma add_operation_entry:
  "add_operation g r = Node (node_dataset_id g) (operations g @ [entry r]) (sources g)"
  by (simp add: add_operation_def entry_def)

lemma build_records_leaf:
  "list_all (\<lambda>r. source_dataset_id r = None) recs \<Longrightarrow>
   build_records n lk recs g v =
     Some (Node (node_dataset_id g) (operations g @ map entry recs) (sources g), v)"
  by (induction recs arbitrary: g) (simp_all add: build_records_Nil_any add_operation_entry)

lemma diamond_build_graph:
  assumes "lk R = [rx, ry]" and "source_dataset_id rx = Some X" and "source_dataset_id ry = Some Y"
    and "lk X = [x1]" and "source_dataset_id x1 = Some S"
    and "lk Y = [y1]" and "source_dataset_id y1 = Some S"
    and "list_all (\<lambda>r. source_dataset_id r = None) (lk S)"
    and "distinct [R, X, Y, S]" and "X \<noteq> []" and "Y \<noteq> []" and "S \<noteq> []"
  shows "build_graph 3 lk R (Node R [] []) {} =
     Some (Node R [entry rx, entry ry]
             [Node X [entry x1] [Node S (map entry (lk S)) []],
              Node Y [entry y1] [Node S [] []]], {S, X, Y, R})"
  using assms
  by (auto simp add: numeral_3_eq_3 add_operation_entry add_source_def build_records_leaf)

text \<open>
  Claim C4. Let the lookup of the root give two records, the first naming the source X and
  the second the source Y, let X and Y each have one record naming the source S, and let the
  records of S name no source; the four names are different and X, Y and S are not empty.
  Then in the graph of the root the node S under X, which the traversal reaches first,
  carries all operations of S, and the node S under Y carries no operation and no source:
  \<^verbatim>\<open>visited\<close> is one set for the whole traversal.
\<close>

theorem diamond_first_visit_wins:
  assumes "get_lineage loads db R = [rx, ry]"
    and "source_dataset_id rx = Some X" and "source_dataset_id ry = Some Y"
    and "get_lineage loads db X = [x1]" and "source_dataset_id x1 = Some S"
    and "get_lineage loads db Y = [y1]" and "source_dataset_id y1 = Some S"
    and "list_all (\<lambda>r. source_dataset_id r = None) (get_lineage loads db S)"
    and "distinct [R, X, Y, S]" and "X \<noteq> []" and "Y \<noteq> []" and "S \<noteq> []"
  shows "get_full_lineage_graph loads db R =
     Some (Node R [entry rx, entry ry]
             [Node X [entry x1] [Node S (map entry (get_lineage loads db S)) []],
              Node Y [entry y1] [Node S [] []]])"
  by (rule get_full_lineage_graph_eq [OF diamond_build_graph [OF assms]])

theorem diamond_first_visit_wins_witness:
  "get_lineage ref_loads diamond_ledger ''R'' =
     [\<lparr>rec_id = 4, dataset_id = ''R'', operation = ''join_x'', source_dataset_id = Some ''X'',
       metadata = None, timestamp = ''2024-01-01T00:00:04'', created_at = ''2024-01-01 00:00:04''\<rparr>,
      \<lparr>rec_id = 5, dataset_id = ''R'', operation = ''join_y'', source_dataset_id = Some ''Y'',
       metadata = None, timestamp = ''2024-01-01T00:00:04'', created_at = ''2024-01-01 00:00:04''\<rparr>] \<and>
   get_lineage ref_loads diamond_ledger ''X'' =
     [\<lparr>rec_id = 2, dataset_id = ''X'', operation = ''op'', source_dataset_id = Some ''S'',
       metadata = None, timestamp = ''2024-01-01T00:00:02'', created_at = ''2024-01-01 00:00:02''\<rparr>] \<and>
   get_lineage ref_loads diamond_ledger ''Y'' =
     [\<lparr>rec_id = 3, dataset_id = ''Y'', operation = ''op'', source_dataset_id = Some ''S'',
       metadata = None, timestamp = ''2024-01-01T00:00:03'', created_at = ''2024-01-01 00:00:03''\<rparr>] \<and>
   get_lineage ref_loads diamond_ledger ''S'' =
     [\<lparr>rec_id = 1, dataset_id = ''S'', operation = ''load'', source_dataset_id = None,
       metadata = Some (JObj [(''n'', JInt 100)]), timestamp = ''2024-01-01T00:00:01'',
       created_at = ''2024-01-01 00:00:01''\<rparr>] \<and>
   get_full_lineage_graph ref_loads diamond_ledger ''R'' =
     Some (Node ''R''
       [\<lparr>op_operation = ''join_x'', op_timestamp = ''2024-01-01T00:00:04'', op_metadata = None\<rparr>,
        \<lparr>op_operation = ''join_y'', op_timestamp = ''2024-01-01T00:00:04'', op_metadata = None\<rparr>]
       [Node ''X''
          [\<lparr>op_operation = ''op'', op_timestamp = ''2024-01-01T00:00:02'', op_metadata = None\<rparr>]
          [Node ''S''
             [\<lparr>op_operation = ''load'', op_timestamp = ''2024-01-01T00:00:01'',
               op_metadata = Some (JObj [(''n'', JInt 100)])\<rparr>] []],
        Node ''Y''
          [\<lparr>op_operation = ''op'', op_timestamp = ''2024-01-01T00:00:03'', op_metadata = None\<rparr>]
          [Node ''S'' [] []]])"
proof -
  let ?rx = "\<lparr>rec_id = 4, dataset_id = ''R'', operation = ''join_x'', source_dataset_id = Some ''X'',
       metadata = None, timestamp = ''2024-01-01T00:00:04'', created_at = ''2024-01-01 00:00:04''\<rparr>"
  let ?ry = "\<lparr>rec_id = 5, dataset_id = ''R'', operation = ''join_y'', source_dataset_id = Some ''Y'',
       metadata = None, timestamp = ''2024-01-01T00:00:04'', created_at = ''2024-01-01 00:00:04''\<rparr>"
  let ?x1 = "\<lparr>rec_id = 2, dataset_id = ''X'', operation = ''op'', source_dataset_id = Some ''S'',
       metadata = None, timestamp = ''2024-01-01T00:00:02'', created_at = ''2024-01-01 00:00:02''\<rparr>"
  let ?y1 = "\<lparr>rec_id = 3, dataset_id = ''Y'', operation = ''op'', source_dataset_id = Some ''S'',
       metadata = None, timestamp = ''2024-01-01T00:00:03'', created_at = ''2024-01-01 00:00:03''\<rparr>"
  let ?s1 = "\<lparr>rec_id = 1, dataset_id = ''S'', operation = ''load'', source_dataset_id = None,
       metadata = Some (JObj [(''n'', JInt 100)]), timestamp = ''2024-01-01T00:00:01'',
       created_at = ''2024-01-01 00:00:01''\<rparr>"
  have hR: "get_lineage ref_loads diamond_ledger ''R'' = [?rx, ?ry]" by code_simp
  have hX: "get_lineage ref_loads diamond_ledger ''X'' = [?x1]" by code_simp
  have hY: "get_lineage ref_loads diamond_ledger ''Y'' = [?y1]" by code_simp
  have hS: "get_lineage ref_loads diamond_ledger ''S'' = [?s1]" by code_simp
  have leaf: "list_all (\<lambda>r. source_dataset_id r = None) (get_lineage ref_loads diamond_ledger ''S'')"
    by (simp add: hS)
  have d: "distinct [''R'', ''X'', ''Y'', ''S'']" by simp
  have g: "get_full_lineage_graph ref_loads diamond_ledger ''R'' =
     Some (Node ''R'' [entry ?rx, entry ?ry]
             [Node ''X'' [entry ?x1] [Node ''S'' (map entry (get_lineage ref_loads diamond_ledger ''S'')) []],
              Node ''Y'' [entry ?y1] [Node ''S'' [] []]])"
    by (rule diamond_first_visit_wins [OF hR _ _ hX _ hY _ leaf d]) simp_all
  show ?thesis using hR hX hY hS g by (simp add: entry_def)
qed

section \<open>One expansion per identifier\<close>

lemma expanded_ids_Node:
  "expanded_ids (Node d ops srcs) = (if ops \<noteq> [] then [d] else []) @ concat (map expanded_ids srcs)"
proof -
  have e: "map expanded_ids srcs =
      map (\<lambda>x. map node_dataset_id (filter (\<lambda>n. operations n \<noteq> []) (nodes x))) srcs"
    by (simp add: expanded_ids_def)
  show ?thesis
    unfolding e by (simp add: expanded_ids_def filter_concat map_concat comp_def)
qed

lemma sources_within_operations_Node:
  "sources_within_operations (Node d ops srcs) =
     (length srcs \<le> length ops \<and> list_all sources_within_operations srcs)"
  by (auto simp: sources_within_operations_def list_all_iff)

lemma tree_ok_Nil: "tree_ok v v []"
  by (simp add: tree_ok_def)

lemma tree_ok_Cons:
  assumes "tree_ok v v1 [t]" and "tree_ok v1 v2 ts"
  shows "tree_ok v v2 (t # ts)"
  using assms by (auto simp: tree_ok_def)

lemma build_records_shape_step:
  assumes bg: "\<And>c v g v'. build_graph n lk c (Node c [] []) v = Some (g, v') \<Longrightarrow> tree_ok v v' [g]"
  shows "build_records n lk recs g v = Some (g', v') \<Longrightarrow>
         \<exists>ops srcs. g' = Node (node_dataset_id g) (operations g @ ops) (sources g @ srcs) \<and>
            length srcs \<le> length ops \<and> tree_ok v v' srcs"
proof (induction recs arbitrary: g v)
  case Nil
  then have "g' = g" "v' = v" by (simp_all add: build_records_Nil_any)
  then have "g' = Node (node_dataset_id g) (operations g @ []) (sources g @ []) \<and>
      length ([] :: node list) \<le> length ([] :: operation_entry list) \<and> tree_ok v v' []"
    by (simp add: tree_ok_Nil)
  then show ?case by blast
next
  case (Cons x xs)
  have plain: "build_records n lk xs (add_operation g x) v = Some (g', v') \<Longrightarrow> ?case"
  proof -
    assume "build_records n lk xs (add_operation g x) v = Some (g', v')"
    then obtain ops srcs where
      "g' = Node (node_dataset_id (add_operation g x)) (operations (add_operation g x) @ ops)
              (sources (add_operation g x) @ srcs)"
      "length srcs \<le> length ops" "tree_ok v v' srcs"
      using Cons.IH by blast
    then have "g' = Node (node_dataset_id g) (operations g @ (entry x # ops)) (sources g @ srcs) \<and>
        length srcs \<le> length (entry x # ops) \<and> tree_ok v v' srcs"
      by (simp add: add_operation_entry)
    then show ?case by blast
  qed
  show ?case
  proof (cases "source_dataset_id x")
    case None
    then show ?thesis using Cons.prems plain by simp
  next
    case (Some s)
    show ?thesis
    proof (cases "s = []")
      case True
      then show ?thesis using Some Cons.prems plain by simp
    next
      case False
      from Cons.prems Some False obtain sg v1 where
        a: "build_graph n lk s (Node s [] []) v = Some (sg, v1)" and
        b: "build_records n lk xs (add_source (add_operation g x) sg) v1 = Some (g', v')"
        by (auto split: option.splits)
      have t1: "tree_ok v v1 [sg]" using a by (rule bg)
      obtain ops srcs where
        g': "g' = Node (node_dataset_id (add_source (add_operation g x) sg))
              (operations (add_source (add_operation g x) sg) @ ops)
              (sources (add_source (add_operation g x) sg) @ srcs)"
        and len: "length srcs \<le> length ops" and t2: "tree_ok v1 v' srcs"
        using Cons.IH [OF b] by blast
      have "g' = Node (node_dataset_id g) (operations g @ (entry x # ops)) (sources g @ (sg # srcs)) \<and>
        length (sg # srcs) \<le> length (entry x # ops) \<and> tree_ok v v' (sg # srcs)"
        using g' len tree_ok_Cons [OF t1 t2] by (simp add: add_operation_entry add_source_def)
      then show ?thesis by blast
    qed
  qed
qed

lemma build_graph_shape:
  "build_graph n lk c (Node c [] []) v = Some (g, v') \<Longrightarrow> tree_ok v v' [g]"
proof (induction n arbitrary: c v g v')
  case 0
  then show ?case by simp
next
  case (Suc n)
  show ?case
  proof (cases "c \<in> v")
    case True
    then have "g = Node c [] []" "v' = v" using Suc.prems by simp_all
    then show ?thesis
      by (simp add: tree_ok_def expanded_ids_Node sources_within_operations_Node)
  next
    case False
    then have a: "build_records n lk (lk c) (Node c [] []) (insert c v) = Some (g, v')"
      using Suc.prems by simp
    have bg: "\<And>c v g v'. build_graph n lk c (Node c [] []) v = Some (g, v') \<Longrightarrow> tree_ok v v' [g]"
      by (rule Suc.IH)
    have "\<exists>ops srcs. g = Node (node_dataset_id (Node c [] [])) (operations (Node c [] []) @ ops)
              (sources (Node c [] []) @ srcs) \<and>
            length srcs \<le> length ops \<and> tree_ok (insert c v) v' srcs"
      using bg a by (rule build_records_shape_step)
    then obtain ops srcs where g: "g = Node c ops srcs" and len: "length srcs \<le> length ops"
      and t: "tree_ok (insert c v) v' srcs"
      by auto
    show ?thesis using g len t False
      by (auto simp: tree_ok_def expanded_ids_Node sources_within_operations_Node)
  qed
qed

lemma length_filter_distinct: "distinct xs \<Longrightarrow> length (filter (\<lambda>x. x = d) xs) \<le> 1"
  by (induction xs) (auto simp: filter_empty_conv)

lemma carrying_expanded_ids:
  "length (carrying d g) = length (filter (\<lambda>x. x = d) (expanded_ids g))"
proof -
  have "\<And>xs. length (filter (\<lambda>n. node_dataset_id n = d \<and> operations n \<noteq> []) xs) =
      length (filter (\<lambda>x. x = d) (map node_dataset_id (filter (\<lambda>n. operations n \<noteq> []) xs)))"
  proof -
    fix xs :: "node list"
    show "length (filter (\<lambda>n. node_dataset_id n = d \<and> operations n \<noteq> []) xs) =
      length (filter (\<lambda>x. x = d) (map node_dataset_id (filter (\<lambda>n. operations n \<noteq> []) xs)))"
      by (induction xs) auto
  qed
  then show ?thesis by (simp add: carrying_def expanded_ids_def)
qed

lemma sources_within_operations_empty:
  "sources_within_operations g \<Longrightarrow> empty_operations_empty_sources g"
  by (auto simp: sources_within_operations_def empty_operations_empty_sources_def list_all_iff)

text \<open>The same traversal in terms of the order of its calls.\<close>

lemma later_visits_empty_append:
  "later_visits_empty seen (xs @ ys) =
     (later_visits_empty seen xs \<and> later_visits_empty (seen \<union> node_dataset_id ` set xs) ys)"
  by (induction xs arbitrary: seen) (auto simp: insert_commute)

lemma visits_ok_Nil: "visits_ok v v []"
  by (simp add: visits_ok_def)

lemma visits_ok_Cons:
  assumes "visits_ok v v1 [t]" and "visits_ok v1 v2 ts"
  shows "visits_ok v v2 (t # ts)"
  using assms by (auto simp: visits_ok_def later_visits_empty_append)

lemma build_records_visits_step:
  assumes bg: "\<And>c v g v'. build_graph n lk c (Node c [] []) v = Some (g, v') \<Longrightarrow> visits_ok v v' [g]"
  shows "build_records n lk recs g v = Some (g', v') \<Longrightarrow>
         \<exists>ops srcs. g' = Node (node_dataset_id g) (operations g @ ops) (sources g @ srcs) \<and>
            visits_ok v v' srcs"
proof (induction recs arbitrary: g v)
  case Nil
  then have "g' = g" "v' = v" by (simp_all add: build_records_Nil_any)
  then have "g' = Node (node_dataset_id g) (operations g @ []) (sources g @ []) \<and> visits_ok v v' []"
    by (simp add: visits_ok_Nil)
  then show ?case by blast
next
  case (Cons x xs)
  have plain: "build_records n lk xs (add_operation g x) v = Some (g', v') \<Longrightarrow> ?case"
  proof -
    assume "build_records n lk xs (add_operation g x) v = Some (g', v')"
    then obtain ops srcs where
      "g' = Node (node_dataset_id (add_operation g x)) (operations (add_operation g x) @ ops)
              (sources (add_operation g x) @ srcs)"
      "visits_ok v v' srcs"
      using Cons.IH by blast
    then have "g' = Node (node_dataset_id g) (operations g @ (entry x # ops)) (sources g @ srcs) \<and>
        visits_ok v v' srcs"
      by (simp add: add_operation_entry)
    then show ?case by blast
  qed
  show ?case
  proof (cases "source_dataset_id x")
    case None
    then show ?thesis using Cons.prems plain by simp
  next
    case (Some s)
    show ?thesis
    proof (cases "s = []")
      case True
      then show ?thesis using Some Cons.prems plain by simp
    next
      case False
      from Cons.prems Some False obtain sg v1 where
        a: "build_graph n lk s (Node s [] []) v = Some (sg, v1)" and
        b: "build_records n lk xs (add_source (add_operation g x) sg) v1 = Some (g', v')"
        by (auto split: option.splits)
      have t1: "visits_ok v v1 [sg]" using a by (rule bg)
      obtain ops srcs where
        g': "g' = Node (node_dataset_id (add_source (add_operation g x) sg))
              (operations (add_source (add_operation g x) sg) @ ops)
              (sources (add_source (add_operation g x) sg) @ srcs)"
        and t2: "visits_ok v1 v' srcs"
        using Cons.IH [OF b] by blast
      have "g' = Node (node_dataset_id g) (operations g @ (entry x # ops)) (sources g @ (sg # srcs)) \<and>
        visits_ok v v' (sg # srcs)"
        using g' visits_ok_Cons [OF t1 t2] by (simp add: add_operation_entry add_source_def)
      then show ?thesis by blast
    qed
  qed
qed

lemma build_graph_visits:
  "build_graph n lk c (Node c [] []) v = Some (g, v') \<Longrightarrow> visits_ok v v' [g]"
proof (induction n arbitrary: c v g v')
  case 0
  then show ?case by simp
next
  case (Suc n)
  show ?case
  proof (cases "c \<in> v")
    case True
    then have "g = Node c [] []" "v' = v" using Suc.prems by simp_all
    then show ?thesis using True by (auto simp: visits_ok_def)
  next
    case False
    then have a: "build_records n lk (lk c) (Node c [] []) (insert c v) = Some (g, v')"
      using Suc.prems by simp
    have bg: "\<And>c v g v'. build_graph n lk c (Node c [] []) v = Some (g, v') \<Longrightarrow> visits_ok v v' [g]"
      by (rule Suc.IH)
    have "\<exists>ops srcs. g = Node (node_dataset_id (Node c [] [])) (operations (Node c [] []) @ ops)
              (sources (Node c [] []) @ srcs) \<and> visits_ok (insert c v) v' srcs"
      using bg a by (rule build_records_visits_step)
    then obtain ops srcs where g: "g = Node c ops srcs" and t: "visits_ok (insert c v) v' srcs"
      by auto
    show ?thesis using g t False by (auto simp: visits_ok_def)
  qed
qed

text \<open>
  Claim C10. In the graph that \<^verbatim>\<open>get_full_lineage_graph\<close> returns, at most one node of any
  identifier carries operations, and it is the first-visited one: every node whose
  identifier was met earlier in the order of the traversal carries no operations and no
  sources. No node has more sources than operations, and a node without operations has no
  sources.
\<close>

theorem graph_one_expansion_per_id:
  "\<exists>g. get_full_lineage_graph loads db did = Some g \<and>
        (\<forall>d. length (carrying d g) \<le> 1) \<and>
        first_visit_wins g \<and>
        sources_within_operations g \<and> empty_operations_empty_sources g"
proof -
  obtain g v where a: "build_graph (Suc (card (reachable_ids (get_lineage loads db) did)))
      (get_lineage loads db) did (Node did [] []) {} = Some (g, v)"
    using build_graph_returns [OF finite_reachable_ids_ledger, of loads db did "{}"
        "Suc (card (reachable_ids (get_lineage loads db) did))" "Node did [] []"]
    by auto
  have t: "tree_ok {} v [g]" using a by (rule build_graph_shape)
  then have d: "distinct (expanded_ids g)" and s: "sources_within_operations g"
    by (simp_all add: tree_ok_def)
  have "visits_ok {} v [g]" using a by (rule build_graph_visits)
  then have f: "first_visit_wins g" by (simp add: visits_ok_def first_visit_wins_def)
  have "\<forall>d. length (carrying d g) \<le> 1"
    using length_filter_distinct [OF d] by (simp add: carrying_expanded_ids)
  moreover have "get_full_lineage_graph loads db did = Some g"
    using a by (rule get_full_lineage_graph_eq)
  ultimately show ?thesis using f s sources_within_operations_empty [OF s] by blast
qed

theorem graph_one_expansion_per_id_witness:
  "get_full_lineage_graph ref_loads diamond_ledger ''R'' =
     Some (Node ''R''
       [\<lparr>op_operation = ''join_x'', op_timestamp = ''2024-01-01T00:00:04'', op_metadata = None\<rparr>,
        \<lparr>op_operation = ''join_y'', op_timestamp = ''2024-01-01T00:00:04'', op_metadata = None\<rparr>]
       [Node ''X''
          [\<lparr>op_operation = ''op'', op_timestamp = ''2024-01-01T00:00:02'', op_metadata = None\<rparr>]
          [Node ''S''
             [\<lparr>op_operation = ''load'', op_timestamp = ''2024-01-01T00:00:01'',
               op_metadata = Some (JObj [(''n'', JInt 100)])\<rparr>] []],
        Node ''Y''
          [\<lparr>op_operation = ''op'', op_timestamp = ''2024-01-01T00:00:03'', op_metadata = None\<rparr>]
          [Node ''S'' [] []]]) \<and>
   length (carrying ''S'' (Node ''R''
       [\<lparr>op_operation = ''join_x'', op_timestamp = ''2024-01-01T00:00:04'', op_metadata = None\<rparr>,
        \<lparr>op_operation = ''join_y'', op_timestamp = ''2024-01-01T00:00:04'', op_metadata = None\<rparr>]
       [Node ''X''
          [\<lparr>op_operation = ''op'', op_timestamp = ''2024-01-01T00:00:02'', op_metadata = None\<rparr>]
          [Node ''S''
             [\<lparr>op_operation = ''load'', op_timestamp = ''2024-01-01T00:00:01'',
               op_metadata = Some (JObj [(''n'', JInt 100)])\<rparr>] []],
        Node ''Y''
          [\<lparr>op_operation = ''op'', op_timestamp = ''2024-01-01T00:00:03'', op_metadata = None\<rparr>]
          [Node ''S'' [] []]])) \<le> 1 \<and>
   first_visit_wins (Node ''R''
       [\<lparr>op_operation = ''join_x'', op_timestamp = ''2024-01-01T00:00:04'', op_metadata = None\<rparr>,
        \<lparr>op_operation = ''join_y'', op_timestamp = ''2024-01-01T00:00:04'', op_metadata = None\<rparr>]
       [Node ''X''
          [\<lparr>op_operation = ''op'', op_timestamp = ''2024-01-01T00:00:02'', op_metadata = None\<rparr>]
          [Node ''S''
             [\<lparr>op_operation = ''load'', op_timestamp = ''2024-01-01T00:00:01'',
               op_metadata = Some (JObj [(''n'', JInt 100)])\<rparr>] []],
        Node ''Y''
          [\<lparr>op_operation = ''op'', op_timestamp = ''2024-01-01T00:00:03'', op_metadata = None\<rparr>]
          [Node ''S'' [] []]]) \<and>
   sources_within_operations (Node ''R''
       [\<lparr>op_operation = ''join_x'', op_timestamp = ''2024-01-01T00:00:04'', op_metadata = None\<rparr>,
        \<lparr>op_operation = ''join_y'', op_timestamp = ''2024-01-01T00:00:04'', op_metadata = None\<rparr>]
       [Node ''X''
          [\<lparr>op_operation = ''op'', op_timestamp = ''2024-01-01T00:00:02'', op_metadata = None\<rparr>]
          [Node ''S''
             [\<lparr>op_operation = ''load'', op_timestamp = ''2024-01-01T00:00:01'',
               op_metadata = Some (JObj [(''n'', JInt 100)])\<rparr>] []],
        Node ''Y''
          [\<lparr>op_operation = ''op'', op_timestamp = ''2024-01-01T00:00:03'', op_metadata = None\<rparr>]
          [Node ''S'' [] []]]) \<and>
   empty_operations_empty_sources (Node ''R''
       [\<lparr>op_operation = ''join_x'', op_timestamp = ''2024-01-01T00:00:04'', op_metadata = None\<rparr>,
        \<lparr>op_operation = ''join_y'', op_timestamp = ''2024-01-01T00:00:04'', op_metadata = None\<rparr>]
       [Node ''X''
          [\<lparr>op_operation = ''op'', op_timestamp = ''2024-01-01T00:00:02'', op_metadata = None\<rparr>]
          [Node ''S''
             [\<lparr>op_operation = ''load'', op_timestamp = ''2024-01-01T00:00:01'',
               op_metadata = Some (JObj [(''n'', JInt 100)])\<rparr>] []],
        Node ''Y''
          [\<lparr>op_operation = ''op'', op_timestamp = ''2024-01-01T00:00:03'', op_metadata = None\<rparr>]
          [Node ''S'' [] []]])"
proof -
  let ?rx = "\<lparr>rec_id = 4, dataset_id = ''R'', operation = ''join_x'', source_dataset_id = Some ''X'',
       metadata = None, timestamp = ''2024-01-01T00:00:04'', created_at = ''2024-01-01 00:00:04''\<rparr>"
  let ?ry = "\<lparr>rec_id = 5, dataset_id = ''R'', operation = ''join_y'', source_dataset_id = Some ''Y'',
       metadata = None, timestamp = ''2024-01-01T00:00:04'', created_at = ''2024-01-01 00:00:04''\<rparr>"
  let ?x1 = "\<lparr>rec_id = 2, dataset_id = ''X'', operation = ''op'', source_dataset_id = Some ''S'',
       metadata = None, timestamp = ''2024-01-01T00:00:02'', created_at = ''2024-01-01 00:00:02''\<rparr>"
  let ?y1 = "\<lparr>rec_id = 3, dataset_id = ''Y'', operation = ''op'', source_dataset_id = Some ''S'',
       metadata = None, timestamp = ''2024-01-01T00:00:03'', created_at = ''2024-01-01 00:00:03''\<rparr>"
  let ?s1 = "\<lparr>rec_id = 1, dataset_id = ''S'', operation = ''load'', source_dataset_id = None,
       metadata = Some (JObj [(''n'', JInt 100)]), timestamp = ''2024-01-01T00:00:01'',
       created_at = ''2024-01-01 00:00:01''\<rparr>"
  let ?G = "Node ''R'' [entry ?rx, entry ?ry]
             [Node ''X'' [entry ?x1] [Node ''S'' (map entry [?s1]) []],
              Node ''Y'' [entry ?y1] [Node ''S'' [] []]]"
  have hR: "get_lineage ref_loads diamond_ledger ''R'' = [?rx, ?ry]" by code_simp
  have hX: "get_lineage ref_loads diamond_ledger ''X'' = [?x1]" by code_simp
  have hY: "get_lineage ref_loads diamond_ledger ''Y'' = [?y1]" by code_simp
  have hS: "get_lineage ref_loads diamond_ledger ''S'' = [?s1]" by code_simp
  have leaf: "list_all (\<lambda>r. source_dataset_id r = None) (get_lineage ref_loads diamond_ledger ''S'')"
    by (simp add: hS)
  have d: "distinct [''R'', ''X'', ''Y'', ''S'']" by simp
  have b: "build_graph 3 (get_lineage ref_loads diamond_ledger) ''R'' (Node ''R'' [] []) {} =
     Some (Node ''R'' [entry ?rx, entry ?ry]
             [Node ''X'' [entry ?x1] [Node ''S'' (map entry (get_lineage ref_loads diamond_ledger ''S'')) []],
              Node ''Y'' [entry ?y1] [Node ''S'' [] []]], {''S'', ''X'', ''Y'', ''R''})"
    by (rule diamond_build_graph [OF hR _ _ hX _ hY _ leaf d]) simp_all
  have v: "get_full_lineage_graph ref_loads diamond_ledger ''R'' = Some ?G"
    using get_full_lineage_graph_eq [OF b] by (simp add: hS)
  obtain g where g: "get_full_lineage_graph ref_loads diamond_ledger ''R'' = Some g"
    and p: "\<forall>d. length (carrying d g) \<le> 1" "first_visit_wins g" "sources_within_operations g"
      "empty_operations_empty_sources g"
    using graph_one_expansion_per_id [of ref_loads diamond_ledger "''R''"] by blast
  from g v have e: "g = ?G" by simp
  have q: "length (carrying ''S'' ?G) \<le> 1" "first_visit_wins ?G" "sources_within_operations ?G"
      "empty_operations_empty_sources ?G"
    using p unfolding e by blast+
  show ?thesis using v q by (simp add: entry_def)
qed

end
